theory Spec2Isabelle
  imports Main
begin

section \<open>The report ledger of BlockchainService.ts\<close>

text \<open>
  A shallow embedding of the class \<open>Blockchain\<close> of
  \<^verbatim>\<open>backend/src/blockchain/BlockchainService.ts\<close>.

  \<^item> JavaScript numbers (\<open>index\<close>, \<open>timestamp\<close>, \<open>nonce\<close>) are integers with exact
    arithmetic. A double is an exact integer, and adding 1 to it is exact, as long as its
    magnitude is below \<open>2^53\<close> (a safe integer); the values the ledger itself produces
    are far below that. A theorem about the result of arithmetic on a value that a caller
    supplies has this bound as a hypothesis.
  \<^item> Strings are byte strings (UTF-8).
  \<^item> \<open>JSON.stringify\<close> writes the properties of an object in the order of their
    creation and leaves out a property whose value is \<open>undefined\<close>. For the hashed
    content this is the order of the object literal in \<open>computeHash\<close>; for the payload
    it is the order of the interface \<open>BlockData\<close>, which the two object literals that
    build a payload follow (the genesis payload, and the payload of the report route).
    The model writes payloads of the shape of that interface, with integers in plain
    decimal. The general theorems do not depend on how the content is written, only on
    the digest of it; the evaluated instances do.
  \<^item> \<open>CryptoJS.SHA256(content).toString(CryptoJS.enc.Hex)\<close> is a library call. It is
    a parameter \<open>sha\<close> of every function that hashes, so each theorem below holds
    for every digest function, SHA-256 among them.
  \<^item> \<open>Date.now()\<close> is the parameter \<open>now\<close> of \<open>addBlock\<close>.
  \<^item> The private field \<open>this.chain\<close> is the one field of the record \<open>Blockchain\<close>; a
    method takes the object and returns it updated.
  \<^item> A loop that need not end (\<open>mineBlock\<close>) returns \<open>None\<close> when it runs forever;
    a thrown \<open>TypeError\<close> is \<open>Inl TypeError\<close>.
\<close>

subsection \<open>Types\<close>

datatype Identity = IdName | IdAnonymous

datatype Status = PENDING | UNDER_REVIEW | RESOLVED | DISMISSED

record Location =
  area :: string
  address :: string
  nearestStation :: string

record BlockData =
  reportId :: string
  category :: string
  urgency :: string
  location :: Location
  descriptionHash :: string
  evidenceHashes :: "string list"
  identity :: Identity
  citizenId :: "string option"
  timestamp :: int
  authorityRouted :: "string list"
  status :: Status

record Block =
  index :: int
  timestamp :: int
  data :: BlockData
  previousHash :: string
  hash :: string
  nonce :: int

record Blockchain =
  chain :: "Block list"

datatype error = TypeError

subsection \<open>Constants\<close>

definition MINING_DIFFICULTY :: nat where
  "MINING_DIFFICULTY = 2"

definition DIFFICULTY_PREFIX :: string where
  "DIFFICULTY_PREFIX = replicate MINING_DIFFICULTY (CHR ''0'')"

text \<open>\<open>String.prototype.startsWith\<close>.\<close>

definition startsWith :: "string \<Rightarrow> string \<Rightarrow> bool" where
  "startsWith s p = (take (length p) s = p)"

subsection \<open>JSON.stringify of the hashed content\<close>

definition digit_char :: "int \<Rightarrow> char" where
  "digit_char n = char_of (48 + n)"

function digits :: "int \<Rightarrow> string" where
  "digits n = (if n < 10 then [digit_char n] else digits (n div 10) @ [digit_char (n mod 10)])"
  by pat_completeness auto
termination
  by (relation "measure nat") auto

declare digits.simps [simp del]

definition JSON_number :: "int \<Rightarrow> string" where
  "JSON_number n = (if n < 0 then CHR ''-'' # digits (- n) else digits n)"

definition hex_char :: "int \<Rightarrow> char" where
  "hex_char n = (if n < 10 then char_of (48 + n) else char_of (87 + n))"

text \<open>
  \<open>QuoteJSONString\<close>: the quote and the backslash are escaped with a backslash, the
  control characters below \<open>0x20\<close> by their short form or as \<open>\u00xx\<close>.
\<close>

definition QuoteJSONChar :: "char \<Rightarrow> string" where
  "QuoteJSONChar c =
    (if c = CHR 0x08 then [CHR 0x5C, CHR ''b'']
     else if c = CHR 0x09 then [CHR 0x5C, CHR ''t'']
     else if c = CHR 0x0A then [CHR 0x5C, CHR ''n'']
     else if c = CHR 0x0C then [CHR 0x5C, CHR ''f'']
     else if c = CHR 0x0D then [CHR 0x5C, CHR ''r'']
     else if c = CHR 0x22 then [CHR 0x5C, CHR 0x22]
     else if c = CHR 0x5C then [CHR 0x5C, CHR 0x5C]
     else if (of_char c :: int) < 32 then
       [CHR 0x5C, CHR ''u'', CHR ''0'', CHR ''0'',
        hex_char ((of_char c :: int) div 16), hex_char ((of_char c :: int) mod 16)]
     else [c])"

definition JSON_string :: "string \<Rightarrow> string" where
  "JSON_string s = CHR 0x22 # concat (map QuoteJSONChar s) @ [CHR 0x22]"

fun commas :: "string list \<Rightarrow> string" where
  "commas [] = []"
| "commas [x] = x"
| "commas (x # y # ys) = x @ CHR '','' # commas (y # ys)"

definition JSON_array :: "string list \<Rightarrow> string" where
  "JSON_array vs = CHR ''['' # commas vs @ [CHR '']'']"

definition JSON_object :: "(string \<times> string) list \<Rightarrow> string" where
  "JSON_object ms = CHR ''{'' # commas (map (\<lambda>(k, v). JSON_string k @ CHR '':'' # v) ms) @ [CHR ''}'']"

fun Identity_string :: "Identity \<Rightarrow> string" where
  "Identity_string IdName = ''name''"
| "Identity_string IdAnonymous = ''anonymous''"

fun Status_string :: "Status \<Rightarrow> string" where
  "Status_string PENDING = ''PENDING''"
| "Status_string UNDER_REVIEW = ''UNDER_REVIEW''"
| "Status_string RESOLVED = ''RESOLVED''"
| "Status_string DISMISSED = ''DISMISSED''"

definition stringify_Location :: "Location \<Rightarrow> string" where
  "stringify_Location l = JSON_object
     [(''area'', JSON_string (area l)),
      (''address'', JSON_string (address l)),
      (''nearestStation'', JSON_string (nearestStation l))]"

text \<open>A property whose value is \<open>undefined\<close> (\<open>citizenId\<close> here) is left out.\<close>

definition stringify_BlockData :: "BlockData \<Rightarrow> string" where
  "stringify_BlockData d = JSON_object
     ([(''reportId'', JSON_string (reportId d)),
       (''category'', JSON_string (category d)),
       (''urgency'', JSON_string (urgency d)),
       (''location'', stringify_Location (location d)),
       (''descriptionHash'', JSON_string (descriptionHash d)),
       (''evidenceHashes'', JSON_array (map JSON_string (evidenceHashes d))),
       (''identity'', JSON_string (Identity_string (identity d)))]
      @ (case citizenId d of None \<Rightarrow> [] | Some c \<Rightarrow> [(''citizenId'', JSON_string c)])
      @ [(''timestamp'', JSON_number (BlockData.timestamp d)),
         (''authorityRouted'', JSON_array (map JSON_string (authorityRouted d))),
         (''status'', JSON_string (Status_string (status d)))])"

definition stringify_content :: "int \<Rightarrow> int \<Rightarrow> BlockData \<Rightarrow> string \<Rightarrow> int \<Rightarrow> string" where
  "stringify_content idx ts d prev n = JSON_object
     [(''index'', JSON_number idx),
      (''timestamp'', JSON_number ts),
      (''data'', stringify_BlockData d),
      (''previousHash'', JSON_string prev),
      (''nonce'', JSON_number n)]"

subsection \<open>The class Blockchain\<close>

definition computeHash ::
  "(string \<Rightarrow> string) \<Rightarrow> int \<Rightarrow> int \<Rightarrow> BlockData \<Rightarrow> string \<Rightarrow> int \<Rightarrow> string" where
  "computeHash sha idx ts d prev n = sha (stringify_content idx ts d prev n)"

text \<open>\<open>new Date('2024-01-01').getTime()\<close>: midnight UTC, in milliseconds.\<close>

definition genesisTime :: int where
  "genesisTime = 1704067200000"

definition genesisData :: BlockData where
  "genesisData =
     \<lparr>reportId = ''GENESIS'', category = ''SYSTEM'', urgency = ''NONE'',
      location = \<lparr>area = ''India'', address = ''Origin'', nearestStation = ''N/A''\<rparr>,
      descriptionHash = ''0000000000000000'', evidenceHashes = [],
      identity = IdAnonymous, citizenId = None, timestamp = genesisTime,
      authorityRouted = [], status = RESOLVED\<rparr>"

definition createGenesisBlock :: "(string \<Rightarrow> string) \<Rightarrow> Block" where
  "createGenesisBlock sha =
     \<lparr>index = 0, timestamp = genesisTime, data = genesisData,
      previousHash = ''0000000000000000'',
      hash = computeHash sha 0 genesisTime genesisData ''0000000000000000'' 0,
      nonce = 0\<rparr>"

definition new_Blockchain :: "(string \<Rightarrow> string) \<Rightarrow> Blockchain" where
  "new_Blockchain sha = \<lparr>chain = [createGenesisBlock sha]\<rparr>"

text \<open>
  The loop of \<open>mineBlock\<close>: the nonce is incremented before the digest is computed, and
  the test is on the digest of the round before (the empty string at first).
\<close>

partial_function (option) mineBlock_loop ::
  "(string \<Rightarrow> string) \<Rightarrow> int \<Rightarrow> int \<Rightarrow> BlockData \<Rightarrow> string \<Rightarrow> int \<Rightarrow> string
    \<Rightarrow> (string \<times> int) option" where
  "mineBlock_loop sha idx ts d prev n h =
     (if \<not> startsWith h DIFFICULTY_PREFIX
      then mineBlock_loop sha idx ts d prev (n + 1) (computeHash sha idx ts d prev (n + 1))
      else Some (h, n))"

definition mineBlock ::
  "(string \<Rightarrow> string) \<Rightarrow> int \<Rightarrow> int \<Rightarrow> BlockData \<Rightarrow> string \<Rightarrow> (string \<times> int) option" where
  "mineBlock sha idx ts d prev = mineBlock_loop sha idx ts d prev 0 []"

text \<open>\<open>this.chain[this.chain.length - 1]\<close> is \<open>undefined\<close> (\<open>None\<close>) on an empty array.\<close>

definition getLatestBlock :: "Blockchain \<Rightarrow> Block option" where
  "getLatestBlock this =
     (if chain this = [] then None else Some (chain this ! (length (chain this) - 1)))"

definition getChain :: "Blockchain \<Rightarrow> Block list" where
  "getChain this = chain this"

definition getLength :: "Blockchain \<Rightarrow> nat" where
  "getLength this = length (chain this)"

text \<open>
  \<open>addBlock\<close>: reading \<open>previousBlock.index\<close> of \<open>undefined\<close> throws a
  \<open>TypeError\<close>; a mining loop that never ends gives \<open>None\<close>.
\<close>

definition addBlock ::
  "(string \<Rightarrow> string) \<Rightarrow> int \<Rightarrow> Blockchain \<Rightarrow> BlockData
    \<Rightarrow> (error + Block \<times> Blockchain) option" where
  "addBlock sha now this d =
     (case getLatestBlock this of
        None \<Rightarrow> Some (Inl TypeError)
      | Some previousBlock \<Rightarrow>
          (let idx = index previousBlock + 1;
               ts = now;
               prev = hash previousBlock
           in case mineBlock sha idx ts d prev of
                None \<Rightarrow> None
              | Some (h, n) \<Rightarrow>
                  (let newBlock = \<lparr>index = idx, timestamp = ts, data = d,
                                    previousHash = prev, hash = h, nonce = n\<rparr>
                   in Some (Inr (newBlock, this\<lparr>chain := chain this @ [newBlock]\<rparr>)))))"

text \<open>The digest that \<open>isChainValid\<close> recomputes from the fields of a block.\<close>

definition recomputedHash :: "(string \<Rightarrow> string) \<Rightarrow> Block \<Rightarrow> string" where
  "recomputedHash sha current =
     computeHash sha (index current) (Block.timestamp current) (data current)
       (previousHash current) (nonce current)"

function isChainValid_loop :: "(string \<Rightarrow> string) \<Rightarrow> Block list \<Rightarrow> nat \<Rightarrow> bool" where
  "isChainValid_loop sha c i =
     (if i < length c then
        (let current = c ! i;
             previous = c ! (i - 1)
         in if hash current \<noteq> recomputedHash sha current then False
            else if previousHash current \<noteq> hash previous then False
            else isChainValid_loop sha c (i + 1))
      else True)"
  by pat_completeness auto
termination
  by (relation "measure (\<lambda>(sha, c, i). length c - i)") auto

declare isChainValid_loop.simps [simp del]

definition isChainValid :: "(string \<Rightarrow> string) \<Rightarrow> Blockchain \<Rightarrow> bool" where
  "isChainValid sha this = isChainValid_loop sha (chain this) 1"

definition findBlockByReportId :: "Blockchain \<Rightarrow> string \<Rightarrow> Block option" where
  "findBlockByReportId this rid = find (\<lambda>b. reportId (data b) = rid) (chain this)"

definition loadChain :: "(string \<Rightarrow> string) \<Rightarrow> Blockchain \<Rightarrow> Block list \<Rightarrow> bool \<times> Blockchain" where
  "loadChain sha this c =
     (let tempChain = chain this;
          this1 = this\<lparr>chain := c\<rparr>
      in if \<not> isChainValid sha this1 then (False, this1\<lparr>chain := tempChain\<rparr>)
         else (True, this1))"

subsection \<open>The payload built by the report route\<close>

text \<open>
  \<^verbatim>\<open>POST /api/reports\<close> (\<^verbatim>\<open>backend/src/routes/reports.ts\<close>) is the caller of
  \<open>addBlock\<close>. Its validation admits the identities \<open>'name'\<close> and \<open>'anonymous'\<close>
  only, and it builds the payload from the request as follows; \<open>descriptionHash\<close> and
  \<open>evidenceHashes\<close> are the digests it computed before.
\<close>

definition blockData ::
  "string \<Rightarrow> string \<Rightarrow> string \<Rightarrow> Location \<Rightarrow> string \<Rightarrow> string list \<Rightarrow> Identity
    \<Rightarrow> string option \<Rightarrow> int \<Rightarrow> string list \<Rightarrow> BlockData" where
  "blockData rid cat urg loc dh ehs ident cid now authorities =
     \<lparr>reportId = rid, category = cat, urgency = urg, location = loc,
      descriptionHash = dh, evidenceHashes = ehs, identity = ident,
      citizenId = (if ident = IdName then cid else None),
      timestamp = now, authorityRouted = authorities, status = PENDING\<rparr>"

subsection \<open>Sequences of calls\<close>

text \<open>
  A client of the ledger calls \<open>addBlock\<close> and \<open>loadChain\<close> in any order. A call of
  \<open>addBlock\<close> that throws leaves the object as it was; one that never returns has no
  state after it (\<open>None\<close>).
\<close>

datatype call = AddBlock int BlockData | LoadChain "Block list"

fun is_AddBlock :: "call \<Rightarrow> bool" where
  "is_AddBlock (AddBlock now d) = True"
| "is_AddBlock (LoadChain c) = False"

fun perform :: "(string \<Rightarrow> string) \<Rightarrow> Blockchain \<Rightarrow> call \<Rightarrow> Blockchain option" where
  "perform sha this (AddBlock now d) =
     (case addBlock sha now this d of
        None \<Rightarrow> None
      | Some (Inl e) \<Rightarrow> Some this
      | Some (Inr (b, this')) \<Rightarrow> Some this')"
| "perform sha this (LoadChain c) = Some (snd (loadChain sha this c))"

fun performAll :: "(string \<Rightarrow> string) \<Rightarrow> Blockchain \<Rightarrow> call list \<Rightarrow> Blockchain option" where
  "performAll sha this [] = Some this"
| "performAll sha this (x # xs) =
     (case perform sha this x of None \<Rightarrow> None | Some this' \<Rightarrow> performAll sha this' xs)"

subsection \<open>A digest to compute with\<close>

text \<open>
  The theorems below are proved for every digest function. Their instances at concrete
  inputs need one that the kernel can evaluate: \<open>demo_sha\<close> is a checksum of the
  content, behind \<open>00\<close> when the last digit of the nonce (the character before the closing
  brace of the content) is 0, 3, 6 or 9, and behind \<open>ff\<close> otherwise.
\<close>

definition demo_sha :: "string \<Rightarrow> string" where
  "demo_sha s =
     (if (of_char (last (butlast s)) :: int) mod 3 = 0 then ''00'' else ''ff'')
     @ digits (sum_list (map of_char s))"

definition demo_payload :: BlockData where
  "demo_payload =
     blockData ''R1'' ''Infrastructure'' ''Medium''
       \<lparr>area = ''Pune'', address = ''MG Road'', nearestStation = ''Central''\<rparr>
       ''d1'' [''e1''] IdAnonymous None 1704067200500 [''Municipal'']"

definition demo_now :: int where
  "demo_now = 1704067200600"

text \<open>The block that \<open>addBlock\<close> appends to a new ledger for \<open>demo_payload\<close>.\<close>

definition demo_block :: Block where
  "demo_block =
     \<lparr>index = 1, timestamp = demo_now, data = demo_payload,
      previousHash = hash (createGenesisBlock demo_sha),
      hash = computeHash demo_sha 1 demo_now demo_payload (hash (createGenesisBlock demo_sha)) 3,
      nonce = 3\<rparr>"

definition demo_ledger :: Blockchain where
  "demo_ledger = \<lparr>chain = [createGenesisBlock demo_sha, demo_block]\<rparr>"

declare mineBlock_loop.simps [code]

subsection \<open>Mining\<close>

lemma not_startsWith_Nil: "\<not> startsWith [] DIFFICULTY_PREFIX"
  by (simp add: startsWith_def DIFFICULTY_PREFIX_def MINING_DIFFICULTY_def)

text \<open>
  What a finished loop has done: either the incoming digest already had the prefix and
  is returned with the incoming nonce, or the result is the digest of a later nonce and
  no nonce in between has a digest with the prefix.
\<close>

lemma mineBlock_loop_sound:
  assumes "mineBlock_loop sha idx ts d prev n h = Some r"
  shows "(startsWith h DIFFICULTY_PREFIX \<and> r = (h, n)) \<or>
         (\<not> startsWith h DIFFICULTY_PREFIX \<and> n < snd r \<and>
          fst r = computeHash sha idx ts d prev (snd r) \<and>
          startsWith (fst r) DIFFICULTY_PREFIX \<and>
          (\<forall>k. n < k \<and> k < snd r \<longrightarrow>
             \<not> startsWith (computeHash sha idx ts d prev k) DIFFICULTY_PREFIX))"
proof -
  define Q where "Q = (\<lambda>sha idx ts d prev (n::int) h (r :: string \<times> int).
      (startsWith h DIFFICULTY_PREFIX \<and> r = (h, n)) \<or>
      (\<not> startsWith h DIFFICULTY_PREFIX \<and> n < snd r \<and>
       fst r = computeHash sha idx ts d prev (snd r) \<and>
       startsWith (fst r) DIFFICULTY_PREFIX \<and>
       (\<forall>k. n < k \<and> k < snd r \<longrightarrow>
          \<not> startsWith (computeHash sha idx ts d prev k) DIFFICULTY_PREFIX)))"
  have "Q sha idx ts d prev n h r"
  proof (rule mineBlock_loop.raw_induct [where P = Q, OF _ assms])
    fix loop sha idx ts d prev n h r
    assume IH: "\<And>sha idx ts d prev n h r.
        loop sha idx ts d prev n h = Some r \<Longrightarrow> Q sha idx ts d prev n h r"
      and body: "(if \<not> startsWith h DIFFICULTY_PREFIX
          then loop sha idx ts d prev (n + 1) (computeHash sha idx ts d prev (n + 1))
          else Some (h, n)) = Some r"
    show "Q sha idx ts d prev n h r"
    proof (cases "startsWith h DIFFICULTY_PREFIX")
      case True
      with body show ?thesis by (auto simp: Q_def)
    next
      case False
      with body
      have "loop sha idx ts d prev (n + 1) (computeHash sha idx ts d prev (n + 1)) = Some r"
        by simp
      from IH [OF this]
      have inner: "Q sha idx ts d prev (n + 1) (computeHash sha idx ts d prev (n + 1)) r" .
      have "n < k \<and> k < snd r \<longrightarrow> k = n + 1 \<or> (n + 1 < k \<and> k < snd r)" for k :: int
        by arith
      with inner False show ?thesis
        unfolding Q_def by (cases r) force
    qed
  qed
  then show ?thesis by (simp add: Q_def)
qed

text \<open>The loop ends at the first later nonce whose digest has the prefix.\<close>

lemma mineBlock_loop_least:
  fixes k :: nat
  assumes "\<not> startsWith h DIFFICULTY_PREFIX"
    and "\<forall>j<k. \<not> startsWith (computeHash sha idx ts d prev (n + 1 + int j)) DIFFICULTY_PREFIX"
    and "startsWith (computeHash sha idx ts d prev (n + 1 + int k)) DIFFICULTY_PREFIX"
  shows "mineBlock_loop sha idx ts d prev n h =
           Some (computeHash sha idx ts d prev (n + 1 + int k), n + 1 + int k)"
  using assms
proof (induction k arbitrary: n h)
  case 0
  then show ?case
    by (simp add: mineBlock_loop.simps [of sha idx ts d prev n h]
        mineBlock_loop.simps [of sha idx ts d prev "n + 1"])
next
  case (Suc k)
  have first: "\<not> startsWith (computeHash sha idx ts d prev (n + 1)) DIFFICULTY_PREFIX"
    using Suc.prems(2) by (auto dest: spec [of _ 0])
  have rest: "\<forall>j<k. \<not> startsWith (computeHash sha idx ts d prev (n + 1 + 1 + int j)) DIFFICULTY_PREFIX"
  proof (intro allI impI)
    fix j assume "j < k"
    then have "Suc j < Suc k" by simp
    with Suc.prems(2) have "\<not> startsWith (computeHash sha idx ts d prev (n + 1 + int (Suc j))) DIFFICULTY_PREFIX"
      by blast
    then show "\<not> startsWith (computeHash sha idx ts d prev (n + 1 + 1 + int j)) DIFFICULTY_PREFIX"
      by (simp add: add.commute add.left_commute)
  qed
  have goal: "startsWith (computeHash sha idx ts d prev (n + 1 + 1 + int k)) DIFFICULTY_PREFIX"
    using Suc.prems(3) by (simp add: add.commute add.left_commute)
  have "mineBlock_loop sha idx ts d prev n h =
        mineBlock_loop sha idx ts d prev (n + 1) (computeHash sha idx ts d prev (n + 1))"
    using Suc.prems(1) by (simp add: mineBlock_loop.simps [of sha idx ts d prev n h])
  also have "\<dots> = Some (computeHash sha idx ts d prev (n + 1 + 1 + int k), n + 1 + 1 + int k)"
    by (rule Suc.IH [OF first rest goal])
  finally show ?case by (simp add: add.commute add.left_commute)
qed

lemma mineBlock_eq_Some_iff:
  "mineBlock sha idx ts d prev = Some (h, m) \<longleftrightarrow>
     1 \<le> m \<and> h = computeHash sha idx ts d prev m \<and> startsWith h DIFFICULTY_PREFIX \<and>
     (\<forall>k. 1 \<le> k \<and> k < m \<longrightarrow>
        \<not> startsWith (computeHash sha idx ts d prev k) DIFFICULTY_PREFIX)"
proof
  assume "mineBlock sha idx ts d prev = Some (h, m)"
  then have "mineBlock_loop sha idx ts d prev 0 [] = Some (h, m)"
    by (simp add: mineBlock_def)
  from mineBlock_loop_sound [OF this] not_startsWith_Nil
  have "0 < m" "h = computeHash sha idx ts d prev m" "startsWith h DIFFICULTY_PREFIX"
    and none: "\<forall>k. 0 < k \<and> k < m \<longrightarrow>
        \<not> startsWith (computeHash sha idx ts d prev k) DIFFICULTY_PREFIX"
    by auto
  moreover have "\<forall>k. 1 \<le> k \<and> k < m \<longrightarrow>
        \<not> startsWith (computeHash sha idx ts d prev k) DIFFICULTY_PREFIX"
    using none by auto
  ultimately show "1 \<le> m \<and> h = computeHash sha idx ts d prev m \<and>
     startsWith h DIFFICULTY_PREFIX \<and>
     (\<forall>k. 1 \<le> k \<and> k < m \<longrightarrow>
        \<not> startsWith (computeHash sha idx ts d prev k) DIFFICULTY_PREFIX)"
    by simp
next
  assume r: "1 \<le> m \<and> h = computeHash sha idx ts d prev m \<and>
     startsWith h DIFFICULTY_PREFIX \<and>
     (\<forall>k. 1 \<le> k \<and> k < m \<longrightarrow>
        \<not> startsWith (computeHash sha idx ts d prev k) DIFFICULTY_PREFIX)"
  define k where "k = nat (m - 1)"
  have m: "m = 0 + 1 + int k" using r by (simp add: k_def)
  have before: "\<forall>j<k. \<not> startsWith (computeHash sha idx ts d prev (0 + 1 + int j)) DIFFICULTY_PREFIX"
    using r by (auto simp: k_def)
  have "startsWith (computeHash sha idx ts d prev m) DIFFICULTY_PREFIX"
    using r by blast
  then have at: "startsWith (computeHash sha idx ts d prev (0 + 1 + int k)) DIFFICULTY_PREFIX"
    unfolding m .
  from mineBlock_loop_least [OF not_startsWith_Nil before at] r m
  show "mineBlock sha idx ts d prev = Some (h, m)"
    by (simp add: mineBlock_def)
qed

text \<open>The loop ends if and only if some nonce from 1 on has a digest with the prefix.\<close>

lemma mineBlock_terminates_iff:
  "(\<exists>r. mineBlock sha idx ts d prev = Some r) \<longleftrightarrow>
   (\<exists>n. 1 \<le> n \<and> startsWith (computeHash sha idx ts d prev n) DIFFICULTY_PREFIX)"
proof
  assume "\<exists>r. mineBlock sha idx ts d prev = Some r"
  then obtain h m where "mineBlock sha idx ts d prev = Some (h, m)" by auto
  then show "\<exists>n. 1 \<le> n \<and> startsWith (computeHash sha idx ts d prev n) DIFFICULTY_PREFIX"
    unfolding mineBlock_eq_Some_iff by blast
next
  assume "\<exists>n. 1 \<le> n \<and> startsWith (computeHash sha idx ts d prev n) DIFFICULTY_PREFIX"
  then obtain n where n: "1 \<le> n"
    "startsWith (computeHash sha idx ts d prev n) DIFFICULTY_PREFIX" by auto
  define good where "good = (\<lambda>j::nat. startsWith (computeHash sha idx ts d prev (1 + int j)) DIFFICULTY_PREFIX)"
  define L where "L = (LEAST j. good j)"
  have "good (nat (n - 1))" using n by (simp add: good_def)
  then have "good L"
    unfolding L_def by (rule LeastI)
  then have least: "startsWith (computeHash sha idx ts d prev (1 + int L)) DIFFICULTY_PREFIX"
    by (simp add: good_def)
  have min: "\<not> good j" if "j < L" for j
    using that unfolding L_def by (rule not_less_Least)
  have none: "\<not> startsWith (computeHash sha idx ts d prev k) DIFFICULTY_PREFIX"
    if "1 \<le> k \<and> k < 1 + int L" for k
  proof -
    from that have "nat (k - 1) < L" by linarith
    then have "\<not> good (nat (k - 1))" by (rule min)
    moreover have "1 + int (nat (k - 1)) = k" using that by simp
    ultimately show ?thesis by (simp add: good_def)
  qed
  have "mineBlock sha idx ts d prev =
      Some (computeHash sha idx ts d prev (1 + int L), 1 + int L)"
    unfolding mineBlock_eq_Some_iff using least none by simp
  then show "\<exists>r. mineBlock sha idx ts d prev = Some r" by blast
qed

subsection \<open>Validation\<close>

lemma isChainValid_loop_iff:
  "isChainValid_loop sha c i \<longleftrightarrow>
     (\<forall>j. i \<le> j \<and> j < length c \<longrightarrow>
        hash (c ! j) = recomputedHash sha (c ! j) \<and> previousHash (c ! j) = hash (c ! (j - 1)))"
proof (induction sha c i rule: isChainValid_loop.induct)
  case (1 sha c i)
  show ?case
  proof (cases "i < length c")
    case False
    then have "isChainValid_loop sha c i"
      by (simp add: isChainValid_loop.simps [of sha c i])
    moreover from False have "\<not> (i \<le> j \<and> j < length c)" for j
      by arith
    ultimately show ?thesis by blast
  next
    case True
    show ?thesis
    proof (cases "hash (c ! i) = recomputedHash sha (c ! i) \<and> previousHash (c ! i) = hash (c ! (i - 1))")
      case False
      with True have "\<not> isChainValid_loop sha c i"
        by (auto simp: isChainValid_loop.simps [of sha c i] Let_def)
      moreover from False True have "\<not> (\<forall>j. i \<le> j \<and> j < length c \<longrightarrow>
        hash (c ! j) = recomputedHash sha (c ! j) \<and> previousHash (c ! j) = hash (c ! (j - 1)))"
        by (intro notI) (auto dest: spec [of _ i])
      ultimately show ?thesis by blast
    next
      case here: True
      with True have step: "isChainValid_loop sha c i = isChainValid_loop sha c (i + 1)"
        by (simp add: isChainValid_loop.simps [of sha c i] Let_def)
      from here have a: "\<not> hash (c ! i) \<noteq> recomputedHash sha (c ! i)"
        and b: "\<not> previousHash (c ! i) \<noteq> hash (c ! (i - 1))"
        by simp_all
      note IH = "1.IH" [OF True refl refl a b]
      have split: "i \<le> j \<longleftrightarrow> j = i \<or> i + 1 \<le> j" for j by arith
      show ?thesis
        unfolding step IH using here by (auto simp: split)
    qed
  qed
qed

lemma isChainValid_iff:
  "isChainValid sha this \<longleftrightarrow>
     (\<forall>j. 1 \<le> j \<and> j < length (chain this) \<longrightarrow>
        hash (chain this ! j) = recomputedHash sha (chain this ! j) \<and>
        previousHash (chain this ! j) = hash (chain this ! (j - 1)))"
  by (simp add: isChainValid_def isChainValid_loop_iff)

lemma loadChain_eq:
  "loadChain sha this c =
     (if isChainValid sha (this\<lparr>chain := c\<rparr>) then (True, this\<lparr>chain := c\<rparr>) else (False, this))"
  by (simp add: loadChain_def Let_def)

subsection \<open>Appending\<close>

lemma getLatestBlock_eq:
  "getLatestBlock this = (if chain this = [] then None else Some (last (chain this)))"
  by (simp add: getLatestBlock_def last_conv_nth)

lemma addBlock_empty: "chain this = [] \<Longrightarrow> addBlock sha now this d = Some (Inl TypeError)"
  by (simp add: addBlock_def getLatestBlock_eq)

lemma addBlock_diverges:
  "chain this \<noteq> [] \<Longrightarrow>
   mineBlock sha (index (last (chain this)) + 1) now d (hash (last (chain this))) = None \<Longrightarrow>
   addBlock sha now this d = None"
  by (simp add: addBlock_def getLatestBlock_eq Let_def)

lemma addBlock_mined:
  "chain this \<noteq> [] \<Longrightarrow>
   mineBlock sha (index (last (chain this)) + 1) now d (hash (last (chain this))) = Some (h, n) \<Longrightarrow>
   addBlock sha now this d =
     Some (Inr (\<lparr>index = index (last (chain this)) + 1, timestamp = now, data = d,
                  previousHash = hash (last (chain this)), hash = h, nonce = n\<rparr>,
                this\<lparr>chain := chain this @
                  [\<lparr>index = index (last (chain this)) + 1, timestamp = now, data = d,
                    previousHash = hash (last (chain this)), hash = h, nonce = n\<rparr>]\<rparr>))"
  by (simp add: addBlock_def getLatestBlock_eq Let_def)

text \<open>Everything that a returning \<open>addBlock\<close> has done.\<close>

lemma addBlock_Inr_iff:
  "addBlock sha now this d = Some (Inr (b, this')) \<longleftrightarrow>
     chain this \<noteq> [] \<and>
     mineBlock sha (index (last (chain this)) + 1) now d (hash (last (chain this)))
       = Some (hash b, nonce b) \<and>
     b = \<lparr>index = index (last (chain this)) + 1, timestamp = now, data = d,
          previousHash = hash (last (chain this)), hash = hash b, nonce = nonce b\<rparr> \<and>
     this' = this\<lparr>chain := chain this @ [b]\<rparr>"
proof (cases "chain this = []")
  case True
  then show ?thesis by (simp add: addBlock_empty)
next
  case False
  show ?thesis
  proof (cases "mineBlock sha (index (last (chain this)) + 1) now d (hash (last (chain this)))")
    case None
    with False show ?thesis by (simp add: addBlock_diverges)
  next
    case (Some r)
    obtain h n where r: "r = (h, n)" by (cases r)
    from addBlock_mined [OF False Some [unfolded r]] False Some r
    show ?thesis by auto
  qed
qed

subsection \<open>The demonstration ledger, evaluated\<close>

lemma demo_genesis_hash: "hash (createGenesisBlock demo_sha) = ''0028752''"
  by code_simp


lemma demo_digest_1:
  "computeHash demo_sha 1 demo_now demo_payload ''0028752'' 1 = ''ff30189''"
  by code_simp

lemma demo_digest_2:
  "computeHash demo_sha 1 demo_now demo_payload ''0028752'' 2 = ''ff30190''"
  by code_simp

lemma demo_digest_3:
  "computeHash demo_sha 1 demo_now demo_payload ''0028752'' 3 = ''0030191''"
  by code_simp

lemma startsWith_demo [simp]:
  "startsWith (a # b # s) DIFFICULTY_PREFIX \<longleftrightarrow> a = CHR ''0'' \<and> b = CHR ''0''"
  by (auto simp: startsWith_def DIFFICULTY_PREFIX_def MINING_DIFFICULTY_def numeral_2_eq_2)

lemma demo_mineBlock:
  "mineBlock demo_sha 1 demo_now demo_payload (hash (createGenesisBlock demo_sha)) =
     Some (computeHash demo_sha 1 demo_now demo_payload (hash (createGenesisBlock demo_sha)) 3, 3)"
proof -
  have "\<not> startsWith (computeHash demo_sha 1 demo_now demo_payload ''0028752'' k) DIFFICULTY_PREFIX"
    if "1 \<le> k \<and> k < 3" for k :: int
  proof -
    from that have "k = 1 \<or> k = 2" by arith
    then show ?thesis
      by (rule disjE) (simp_all add: demo_digest_1 demo_digest_2)
  qed
  then have "\<forall>k. 1 \<le> k \<and> k < 3 \<longrightarrow>
      \<not> startsWith (computeHash demo_sha 1 demo_now demo_payload ''0028752'' k) DIFFICULTY_PREFIX"
    by blast
  then show ?thesis
    unfolding mineBlock_eq_Some_iff demo_genesis_hash by (simp add: demo_digest_3)
qed

lemma demo_addBlock:
  "addBlock demo_sha demo_now (new_Blockchain demo_sha) demo_payload =
     Some (Inr (demo_block, demo_ledger))"
proof -
  have ne: "chain (new_Blockchain demo_sha) \<noteq> []"
    by (simp add: new_Blockchain_def)
  have g: "last (chain (new_Blockchain demo_sha)) = createGenesisBlock demo_sha"
    by (simp add: new_Blockchain_def)
  have i: "index (createGenesisBlock demo_sha) + 1 = 1"
    by (simp add: createGenesisBlock_def)
  show ?thesis
    using addBlock_mined [OF ne, of demo_sha demo_now demo_payload, unfolded g i, OF demo_mineBlock]
    by (simp add: demo_block_def demo_ledger_def new_Blockchain_def)
qed

lemma demo_ledger_valid: "isChainValid demo_sha demo_ledger"
proof -
  have "j = 1" if "1 \<le> j \<and> j < length (chain demo_ledger)" for j
    using that by (simp add: demo_ledger_def)
  moreover have "hash (chain demo_ledger ! 1) = recomputedHash demo_sha (chain demo_ledger ! 1)"
    by (simp add: demo_ledger_def demo_block_def recomputedHash_def)
  moreover have "previousHash (chain demo_ledger ! 1) = hash (chain demo_ledger ! (1 - 1))"
    by (simp add: demo_ledger_def demo_block_def)
  ultimately show ?thesis
    unfolding isChainValid_iff by blast
qed

section \<open>The claims\<close>

subsection \<open>Mining\<close>




subsection \<open>Validation and loading\<close>

text \<open>
  C10. \<open>isChainValid\<close> returns true for the chain of length 0 and for every chain of
  length 1, whatever the block at index 0 holds: the loop starts at index 1 and checks
  nothing. So \<open>loadChain\<close> accepts the empty candidate and every single-block candidate,
  and makes it the active chain.
\<close>

theorem isChainValid_short_chain:
  "isChainValid sha (this\<lparr>chain := []\<rparr>) \<and>
   isChainValid sha (this\<lparr>chain := [b]\<rparr>) \<and>
   loadChain sha this [] = (True, this\<lparr>chain := []\<rparr>) \<and>
   loadChain sha this [b] = (True, this\<lparr>chain := [b]\<rparr>)"
proof -
  have "isChainValid sha (this\<lparr>chain := []\<rparr>)"
    by (simp add: isChainValid_iff)
  moreover have "isChainValid sha (this\<lparr>chain := [b]\<rparr>)"
    by (simp add: isChainValid_iff)
  ultimately show ?thesis
    by (simp add: loadChain_eq)
qed

text \<open>
  C4. For every candidate chain on which validation fails, \<open>loadChain\<close> returns false
  and the ledger after the call is the ledger before the call.
\<close>

theorem loadChain_fail_safe:
  "\<not> isChainValid sha (this\<lparr>chain := c\<rparr>) \<Longrightarrow> loadChain sha this c = (False, this)"
  by (simp add: loadChain_eq)

text \<open>
  The candidate of the witness is the demonstration chain with the \<open>hash\<close> field of its
  second block overwritten.
\<close>

theorem loadChain_fail_safe_witness:
  "\<not> isChainValid demo_sha
       (demo_ledger\<lparr>chain := [createGenesisBlock demo_sha, demo_block\<lparr>hash := ''tampered''\<rparr>]\<rparr>) \<and>
   loadChain demo_sha demo_ledger
       [createGenesisBlock demo_sha, demo_block\<lparr>hash := ''tampered''\<rparr>] = (False, demo_ledger)"
proof -
  have "recomputedHash demo_sha (demo_block\<lparr>hash := ''tampered''\<rparr>) = ''0030191''"
    by (simp add: recomputedHash_def demo_block_def demo_genesis_hash demo_digest_3)
  then have "hash (demo_block\<lparr>hash := ''tampered''\<rparr>)
      \<noteq> recomputedHash demo_sha (demo_block\<lparr>hash := ''tampered''\<rparr>)"
    by simp
  then have invalid: "\<not> isChainValid demo_sha
       (demo_ledger\<lparr>chain := [createGenesisBlock demo_sha, demo_block\<lparr>hash := ''tampered''\<rparr>]\<rparr>)"
    unfolding isChainValid_iff by (auto dest!: spec [of _ 1])
  with loadChain_fail_safe [OF invalid] show ?thesis by simp
qed

text \<open>
  The example that goes with it: in a valid chain of at least two blocks, overwriting
  the \<open>hash\<close> field of any one block with another value makes validation fail, at the
  block itself when its index is 1 or more and at its successor when it is the first
  block. (A chain of one block stays valid, whatever its block holds.)
\<close>

lemma corrupted_hash_detected:
  assumes "isChainValid sha (this\<lparr>chain := c\<rparr>)"
    and "2 \<le> length c" and "i < length c" and "h \<noteq> hash (c ! i)"
  shows "\<not> isChainValid sha (this\<lparr>chain := c[i := (c ! i)\<lparr>hash := h\<rparr>]\<rparr>)"
proof
  assume v: "isChainValid sha (this\<lparr>chain := c[i := (c ! i)\<lparr>hash := h\<rparr>]\<rparr>)"
  show False
  proof (cases "i = 0")
    case True
    from assms(1,2) have a: "previousHash (c ! 1) = hash (c ! 0)"
      unfolding isChainValid_iff by (auto dest!: spec [of _ 1])
    have "previousHash (c[0 := (c ! 0)\<lparr>hash := h\<rparr>] ! 1)
        = hash (c[0 := (c ! 0)\<lparr>hash := h\<rparr>] ! 0)"
      using v assms(2) True unfolding isChainValid_iff by (auto dest!: spec [of _ 1])
    moreover from assms(2) have "0 < length c" by arith
    ultimately have "previousHash (c ! 1) = h"
      by simp
    then show False using a assms(4) True by simp
  next
    case False
    with assms(1,3) have "hash (c ! i) = recomputedHash sha (c ! i)"
      unfolding isChainValid_iff by (auto dest!: spec [of _ i])
    moreover from v False assms(3)
    have "hash (c[i := (c ! i)\<lparr>hash := h\<rparr>] ! i)
        = recomputedHash sha (c[i := (c ! i)\<lparr>hash := h\<rparr>] ! i)"
      unfolding isChainValid_iff by (auto dest!: spec [of _ i])
    then have "h = recomputedHash sha ((c ! i)\<lparr>hash := h\<rparr>)"
      using assms(3) by simp
    moreover have "recomputedHash sha ((c ! i)\<lparr>hash := h\<rparr>) = recomputedHash sha (c ! i)"
      by (simp add: recomputedHash_def)
    ultimately show False using assms(4) by simp
  qed
qed

text \<open>
  C7. On a ledger whose chain passes \<open>isChainValid\<close>, loading the chain that \<open>getChain\<close>
  returns succeeds and leaves the ledger as it was.
\<close>

theorem loadChain_getChain_roundtrip:
  "isChainValid sha this \<Longrightarrow> loadChain sha this (getChain this) = (True, this)"
  by (simp add: loadChain_eq getChain_def)

theorem loadChain_getChain_roundtrip_witness:
  "isChainValid demo_sha demo_ledger \<and>
   loadChain demo_sha demo_ledger (getChain demo_ledger) = (True, demo_ledger)"
  using loadChain_getChain_roundtrip [OF demo_ledger_valid] demo_ledger_valid by simp

subsection \<open>Appending\<close>

text \<open>
  C5 (as amended). A call of \<open>addBlock\<close> that returns a block has found the ledger not
  empty; the block carries the payload and the hash of the previous latest block as its
  previousHash; the chain is the old chain with the returned block appended, so its
  length grows by one, the returned block is the new last element and the blocks before
  it are the old ones. When the index of the previous latest block is a safe integer (of
  magnitude below \<open>2^53\<close>, where adding 1 to a double is exact), the index of the
  returned block is one greater than it; this is the previous length when the index of the
  previous latest block is its position, which \<open>loadChain\<close> does not check. The call
  returns on every ledger that is not empty and has such an index when some nonce from 1
  to \<open>2^53\<close> has a digest with the difficulty prefix.
\<close>

theorem addBlock_postconditions:
  "(chain this \<noteq> [] \<and> \<bar>index (last (chain this))\<bar> < 2 ^ 53 \<and> 1 \<le> n \<and> n \<le> 2 ^ 53 \<and>
    startsWith (computeHash sha (index (last (chain this)) + 1) now d
      (hash (last (chain this))) n) DIFFICULTY_PREFIX
      \<longrightarrow> (\<exists>b this'. addBlock sha now this d = Some (Inr (b, this')))) \<and>
   (addBlock sha now this d = Some (Inr (b, this')) \<longrightarrow>
      chain this \<noteq> [] \<and>
      (\<bar>index (last (chain this))\<bar> < 2 ^ 53 \<longrightarrow>
         index b = index (last (chain this)) + 1 \<and>
         (index (last (chain this)) = int (getLength this) - 1 \<longrightarrow>
            index b = int (getLength this))) \<and>
      previousHash b = hash (last (chain this)) \<and>
      data b = d \<and>
      this' = this\<lparr>chain := chain this @ [b]\<rparr> \<and>
      getLength this' = getLength this + 1 \<and>
      getLatestBlock this' = Some b \<and>
      take (getLength this) (chain this') = chain this)"
proof (intro conjI impI)
  assume a: "chain this \<noteq> [] \<and> \<bar>index (last (chain this))\<bar> < 2 ^ 53 \<and> 1 \<le> n \<and> n \<le> 2 ^ 53 \<and>
    startsWith (computeHash sha (index (last (chain this)) + 1) now d
      (hash (last (chain this))) n) DIFFICULTY_PREFIX"
  then have "\<exists>r. mineBlock sha (index (last (chain this)) + 1) now d (hash (last (chain this))) = Some r"
    unfolding mineBlock_terminates_iff by blast
  then obtain h m
    where "mineBlock sha (index (last (chain this)) + 1) now d (hash (last (chain this))) = Some (h, m)"
    by auto
  with a addBlock_mined [of this sha now d h m]
  show "\<exists>b this'. addBlock sha now this d = Some (Inr (b, this'))"
    by blast
next
  assume r: "addBlock sha now this d = Some (Inr (b, this'))"
  then have ne: "chain this \<noteq> []"
    and b: "b = \<lparr>index = index (last (chain this)) + 1, timestamp = now, data = d,
          previousHash = hash (last (chain this)), hash = hash b, nonce = nonce b\<rparr>"
    and t: "this' = this\<lparr>chain := chain this @ [b]\<rparr>"
    unfolding addBlock_Inr_iff by blast+
  have ib: "index b = index (last (chain this)) + 1"
    by (subst b) simp
  have pb: "previousHash b = hash (last (chain this))"
    by (subst b) simp
  have db: "data b = d"
    by (subst b) simp
  show "chain this \<noteq> []" by (rule ne)
  show "previousHash b = hash (last (chain this))" by (rule pb)
  show "data b = d" by (rule db)
  show "this' = this\<lparr>chain := chain this @ [b]\<rparr>" by (rule t)
  show "getLength this' = getLength this + 1"
    by (simp add: t getLength_def)
  show "getLatestBlock this' = Some b"
    by (simp add: t getLatestBlock_eq)
  show "take (getLength this) (chain this') = chain this"
    by (simp add: t getLength_def)
  show "index b = index (last (chain this)) + 1" by (rule ib)
  show "index b = int (getLength this)"
    if "index (last (chain this)) = int (getLength this) - 1"
    using that ib by simp
qed

theorem addBlock_postconditions_witness:
  "addBlock demo_sha demo_now (new_Blockchain demo_sha) demo_payload =
     Some (Inr (demo_block, demo_ledger)) \<and>
   \<bar>index (last (chain (new_Blockchain demo_sha)))\<bar> < 2 ^ 53 \<and>
   index demo_block = 1 \<and> getLength (new_Blockchain demo_sha) = 1 \<and>
   previousHash demo_block = hash (createGenesisBlock demo_sha) \<and>
   getLength demo_ledger = 2 \<and> getLatestBlock demo_ledger = Some demo_block"
proof -
  have g: "last (chain (new_Blockchain demo_sha)) = createGenesisBlock demo_sha"
    by (simp add: new_Blockchain_def)
  have i: "index (createGenesisBlock demo_sha) = 0"
    by (simp add: createGenesisBlock_def)
  have safe: "\<bar>index (last (chain (new_Blockchain demo_sha)))\<bar> < 2 ^ 53"
    unfolding g i by simp
  have len: "getLength (new_Blockchain demo_sha) = 1"
    by (simp add: getLength_def new_Blockchain_def)
  have pos: "index (last (chain (new_Blockchain demo_sha)))
      = int (getLength (new_Blockchain demo_sha)) - 1"
    unfolding g i len by simp
  note inst = addBlock_postconditions
    [where this = "new_Blockchain demo_sha" and sha = demo_sha and now = demo_now
      and d = demo_payload and b = demo_block and this' = demo_ledger and n = 3]
  from inst demo_addBlock safe pos
  have "index demo_block = int (getLength (new_Blockchain demo_sha))"
    and "previousHash demo_block = hash (last (chain (new_Blockchain demo_sha)))"
    and "getLength demo_ledger = getLength (new_Blockchain demo_sha) + 1"
    and "getLatestBlock demo_ledger = Some demo_block"
    by blast+
  with demo_addBlock safe len g show ?thesis by simp
qed

text \<open>
  Against C5 as stated: \<open>loadChain\<close> accepts a single block whose index field is 7, and
  on that ledger, of length 1, \<open>addBlock\<close> returns a block of index 8.
\<close>

theorem addBlock_index_counterexample:
  "loadChain demo_sha (new_Blockchain demo_sha) [(createGenesisBlock demo_sha)\<lparr>index := 7\<rparr>]
     = (True, \<lparr>chain = [(createGenesisBlock demo_sha)\<lparr>index := 7\<rparr>]\<rparr>) \<and>
   getLength \<lparr>chain = [(createGenesisBlock demo_sha)\<lparr>index := 7\<rparr>]\<rparr> = 1 \<and>
   (\<exists>b this'. addBlock demo_sha demo_now
       \<lparr>chain = [(createGenesisBlock demo_sha)\<lparr>index := 7\<rparr>]\<rparr> demo_payload = Some (Inr (b, this')) \<and>
     index b = 8)"
proof -
  have "isChainValid demo_sha \<lparr>chain = [(createGenesisBlock demo_sha)\<lparr>index := 7\<rparr>]\<rparr>"
    by (simp add: isChainValid_iff)
  then have load: "loadChain demo_sha (new_Blockchain demo_sha) [(createGenesisBlock demo_sha)\<lparr>index := 7\<rparr>]
     = (True, \<lparr>chain = [(createGenesisBlock demo_sha)\<lparr>index := 7\<rparr>]\<rparr>)"
    by (simp add: loadChain_eq new_Blockchain_def)
  have "computeHash demo_sha 8 demo_now demo_payload ''0028752'' 3 = ''0030198''"
    by code_simp
  then have "\<exists>n. 1 \<le> n \<and> startsWith (computeHash demo_sha 8 demo_now demo_payload
      (hash (createGenesisBlock demo_sha)) n) DIFFICULTY_PREFIX"
    by (intro exI [of _ 3]) (simp add: demo_genesis_hash)
  then obtain r where "mineBlock demo_sha 8 demo_now demo_payload (hash (createGenesisBlock demo_sha)) = Some r"
    unfolding mineBlock_terminates_iff [symmetric] by blast
  then obtain h m where "mineBlock demo_sha 8 demo_now demo_payload (hash (createGenesisBlock demo_sha)) = Some (h, m)"
    by (cases r) simp
  then have "\<exists>b this'. addBlock demo_sha demo_now
       \<lparr>chain = [(createGenesisBlock demo_sha)\<lparr>index := 7\<rparr>]\<rparr> demo_payload = Some (Inr (b, this')) \<and>
     index b = 8"
    by (simp add: addBlock_def getLatestBlock_eq Let_def)
  with load show ?thesis by (simp add: getLength_def)
qed

text \<open>
  C8 (as amended). \<open>addBlock\<close> neither rejects a payload nor strips a field from it: the
  block it returns carries the payload as it was passed. The guard is in the caller:
  the report route builds its payload with a citizenId only when the identity is
  \<open>'name'\<close>, so that no block sealed for that route with identity \<open>'anonymous'\<close>
  carries a citizenId.
\<close>

theorem addBlock_seals_payload_as_given:
  "(addBlock sha now this d = Some (Inr (b, this')) \<longrightarrow> data b = d) \<and>
   (addBlock sha now this (blockData rid cat urg loc dh ehs ident cid ts auth)
      = Some (Inr (b', this'')) \<longrightarrow>
    identity (data b') = IdAnonymous \<longrightarrow> citizenId (data b') = None)"
proof (intro conjI impI)
  assume "addBlock sha now this d = Some (Inr (b, this'))"
  then have "b = \<lparr>index = index (last (chain this)) + 1, timestamp = now, data = d,
          previousHash = hash (last (chain this)), hash = hash b, nonce = nonce b\<rparr>"
    unfolding addBlock_Inr_iff by blast
  then have "data b = data \<lparr>index = index (last (chain this)) + 1, timestamp = now, data = d,
          previousHash = hash (last (chain this)), hash = hash b, nonce = nonce b\<rparr>"
    by (rule arg_cong)
  then show "data b = d" by simp
next
  assume "addBlock sha now this (blockData rid cat urg loc dh ehs ident cid ts auth)
      = Some (Inr (b', this''))"
  then have "b' = \<lparr>index = index (last (chain this)) + 1, timestamp = now,
          data = blockData rid cat urg loc dh ehs ident cid ts auth,
          previousHash = hash (last (chain this)), hash = hash b', nonce = nonce b'\<rparr>"
    unfolding addBlock_Inr_iff by blast
  then have "data b' = data \<lparr>index = index (last (chain this)) + 1, timestamp = now,
          data = blockData rid cat urg loc dh ehs ident cid ts auth,
          previousHash = hash (last (chain this)), hash = hash b', nonce = nonce b'\<rparr>"
    by (rule arg_cong)
  then have d: "data b' = blockData rid cat urg loc dh ehs ident cid ts auth" by simp
  assume "identity (data b') = IdAnonymous"
  with d show "citizenId (data b') = None"
    by (simp add: blockData_def)
qed

text \<open>
  The route, given the identity \<open>'anonymous'\<close> and the citizenId \<open>C9\<close>, builds the
  demonstration payload, which has no citizenId, and that is what the block carries.
\<close>

theorem addBlock_seals_payload_as_given_witness:
  "addBlock demo_sha demo_now (new_Blockchain demo_sha)
     (blockData ''R1'' ''Infrastructure'' ''Medium''
       \<lparr>area = ''Pune'', address = ''MG Road'', nearestStation = ''Central''\<rparr>
       ''d1'' [''e1''] IdAnonymous (Some ''C9'') 1704067200500 [''Municipal''])
     = Some (Inr (demo_block, demo_ledger)) \<and>
   data demo_block = demo_payload \<and>
   identity (data demo_block) = IdAnonymous \<and>
   citizenId (data demo_block) = None"
proof -
  have p: "blockData ''R1'' ''Infrastructure'' ''Medium''
       \<lparr>area = ''Pune'', address = ''MG Road'', nearestStation = ''Central''\<rparr>
       ''d1'' [''e1''] IdAnonymous (Some ''C9'') 1704067200500 [''Municipal''] = demo_payload"
    by (simp add: blockData_def demo_payload_def)
  have a: "addBlock demo_sha demo_now (new_Blockchain demo_sha)
     (blockData ''R1'' ''Infrastructure'' ''Medium''
       \<lparr>area = ''Pune'', address = ''MG Road'', nearestStation = ''Central''\<rparr>
       ''d1'' [''e1''] IdAnonymous (Some ''C9'') 1704067200500 [''Municipal''])
     = Some (Inr (demo_block, demo_ledger))"
    unfolding p by (rule demo_addBlock)
  have i: "identity (data demo_block) = IdAnonymous"
    by (simp add: demo_block_def demo_payload_def blockData_def)
  note inst = addBlock_seals_payload_as_given
    [of demo_sha demo_now "new_Blockchain demo_sha" demo_payload demo_block demo_ledger
      "''R1''" "''Infrastructure''" "''Medium''"
      "\<lparr>area = ''Pune'', address = ''MG Road'', nearestStation = ''Central''\<rparr>"
      "''d1''" "[''e1'']" IdAnonymous "Some ''C9''" 1704067200500 "[''Municipal'']"
      demo_block demo_ledger]
  from inst demo_addBlock have "data demo_block = demo_payload" by blast
  moreover from inst a i have "citizenId (data demo_block) = None" by blast
  ultimately show ?thesis using a i by blast
qed

text \<open>
  Against C8 as stated: \<open>addBlock\<close>, called with a payload of identity \<open>'anonymous'\<close>
  and citizenId \<open>C9\<close>, returns a block that carries both.
\<close>

theorem addBlock_anonymous_counterexample:
  "\<exists>b this'. addBlock demo_sha demo_now (new_Blockchain demo_sha)
       (demo_payload\<lparr>citizenId := Some ''C9''\<rparr>) = Some (Inr (b, this')) \<and>
     identity (data b) = IdAnonymous \<and> citizenId (data b) = Some ''C9''"
proof -
  have "computeHash demo_sha 1 demo_now (demo_payload\<lparr>citizenId := Some ''C9''\<rparr>) ''0028752'' 3
      = ''0031484''"
    by code_simp
  then have "\<exists>n. 1 \<le> n \<and> startsWith (computeHash demo_sha 1 demo_now
      (demo_payload\<lparr>citizenId := Some ''C9''\<rparr>) (hash (createGenesisBlock demo_sha)) n) DIFFICULTY_PREFIX"
    by (intro exI [of _ 3]) (simp add: demo_genesis_hash)
  then obtain r where "mineBlock demo_sha 1 demo_now (demo_payload\<lparr>citizenId := Some ''C9''\<rparr>)
      (hash (createGenesisBlock demo_sha)) = Some r"
    unfolding mineBlock_terminates_iff [symmetric] by blast
  then obtain h m where "mineBlock demo_sha 1 demo_now (demo_payload\<lparr>citizenId := Some ''C9''\<rparr>)
      (hash (createGenesisBlock demo_sha)) = Some (h, m)"
    by (cases r) simp
  moreover have "index (createGenesisBlock demo_sha) + 1 = 1"
    by (simp add: createGenesisBlock_def)
  moreover have "identity demo_payload = IdAnonymous"
    by (simp add: demo_payload_def blockData_def)
  ultimately show ?thesis
    by (simp add: addBlock_def getLatestBlock_eq Let_def new_Blockchain_def)
qed

subsection \<open>Invariants of the ledger\<close>

lemma perform_nonempty:
  assumes "chain this \<noteq> []" and "x \<noteq> LoadChain []" and "perform sha this x = Some this'"
  shows "chain this' \<noteq> []"
proof (cases x)
  case (AddBlock now d)
  show ?thesis
  proof (cases "addBlock sha now this d")
    case None
    with assms(3) AddBlock show ?thesis by simp
  next
    case (Some r)
    show ?thesis
    proof (cases r)
      case (Inl e)
      with assms(1,3) AddBlock Some show ?thesis by simp
    next
      case (Inr p)
      obtain b t where p: "p = (b, t)" by (cases p)
      from Some Inr p have "addBlock sha now this d = Some (Inr (b, t))" by simp
      then have "t = this\<lparr>chain := chain this @ [b]\<rparr>"
        unfolding addBlock_Inr_iff by blast
      moreover from assms(3) AddBlock Some Inr p have "this' = t" by simp
      ultimately show ?thesis by simp
    qed
  qed
next
  case (LoadChain c)
  with assms(2) have "c \<noteq> []" by simp
  with assms(1,3) LoadChain show ?thesis
    by (auto simp: loadChain_eq split: if_splits)
qed

lemma performAll_nonempty:
  assumes "\<forall>x\<in>set xs. x \<noteq> LoadChain []"
    and "chain this \<noteq> []"
    and "performAll sha this xs = Some this'"
  shows "chain this' \<noteq> []"
  using assms
proof (induction xs arbitrary: this)
  case Nil
  then show ?case by simp
next
  case (Cons x xs)
  from Cons.prems(3) obtain t where t: "perform sha this x = Some t"
    and rest: "performAll sha t xs = Some this'"
    by (auto split: option.splits)
  from Cons.prems(1) have "x \<noteq> LoadChain []" by simp
  from perform_nonempty [OF Cons.prems(2) this t] have "chain t \<noteq> []" .
  moreover from Cons.prems(1) have "\<forall>x\<in>set xs. x \<noteq> LoadChain []" by simp
  ultimately show ?case using rest by (intro Cons.IH)
qed

text \<open>
  C2 (as amended). After construction and after any sequence of \<open>addBlock\<close> calls and
  of \<open>loadChain\<close> calls whose candidate is not the empty chain, with any other
  arguments and any return values, the chain contains at least one block, and
  \<open>getLatestBlock\<close> returns its last block.
\<close>

theorem ledger_never_empty:
  assumes "\<forall>x\<in>set xs. x \<noteq> LoadChain []"
    and "performAll sha (new_Blockchain sha) xs = Some this'"
  shows "chain this' \<noteq> [] \<and> getLatestBlock this' = Some (last (chain this'))"
proof -
  have "chain (new_Blockchain sha) \<noteq> []"
    by (simp add: new_Blockchain_def)
  from performAll_nonempty [OF assms(1) this assms(2)]
  show ?thesis by (simp add: getLatestBlock_eq)
qed

text \<open>
  The calls of the witness: an \<open>addBlock\<close>, a \<open>loadChain\<close> of a corrupted chain, which
  is refused, and a \<open>loadChain\<close> of the chain itself.
\<close>

theorem ledger_never_empty_witness:
  "performAll demo_sha (new_Blockchain demo_sha)
     [AddBlock demo_now demo_payload,
      LoadChain [createGenesisBlock demo_sha, demo_block\<lparr>hash := ''tampered''\<rparr>],
      LoadChain (chain demo_ledger)] = Some demo_ledger \<and>
   chain demo_ledger \<noteq> [] \<and>
   getLatestBlock demo_ledger = Some (last (chain demo_ledger))"
proof -
  have "recomputedHash demo_sha (demo_block\<lparr>hash := ''tampered''\<rparr>) = ''0030191''"
    by (simp add: recomputedHash_def demo_block_def demo_genesis_hash demo_digest_3)
  then have "hash (demo_block\<lparr>hash := ''tampered''\<rparr>)
      \<noteq> recomputedHash demo_sha (demo_block\<lparr>hash := ''tampered''\<rparr>)"
    by simp
  then have "\<not> isChainValid demo_sha
       (demo_ledger\<lparr>chain := [createGenesisBlock demo_sha, demo_block\<lparr>hash := ''tampered''\<rparr>]\<rparr>)"
    unfolding isChainValid_iff by (auto dest!: spec [of _ 1])
  then have refused: "loadChain demo_sha demo_ledger
       [createGenesisBlock demo_sha, demo_block\<lparr>hash := ''tampered''\<rparr>] = (False, demo_ledger)"
    by (simp add: loadChain_eq)
  have "demo_ledger\<lparr>chain := chain demo_ledger\<rparr> = demo_ledger"
    by simp
  with demo_ledger_valid
  have same: "loadChain demo_sha demo_ledger (chain demo_ledger) = (True, demo_ledger)"
    by (simp add: loadChain_eq)
  have run: "performAll demo_sha (new_Blockchain demo_sha)
     [AddBlock demo_now demo_payload,
      LoadChain [createGenesisBlock demo_sha, demo_block\<lparr>hash := ''tampered''\<rparr>],
      LoadChain (chain demo_ledger)] = Some demo_ledger"
    by (simp add: demo_addBlock refused same)
  have "\<forall>x\<in>set [AddBlock demo_now demo_payload,
      LoadChain [createGenesisBlock demo_sha, demo_block\<lparr>hash := ''tampered''\<rparr>],
      LoadChain (chain demo_ledger)]. x \<noteq> LoadChain []"
    by (simp add: demo_ledger_def)
  from ledger_never_empty [OF this run] run show ?thesis by simp
qed

text \<open>
  Against C2 as stated: \<open>loadChain\<close> of the empty chain on a new ledger leaves the
  ledger empty, and \<open>getLatestBlock\<close> then returns \<open>undefined\<close>.
\<close>

theorem ledger_empty_counterexample:
  "performAll demo_sha (new_Blockchain demo_sha) [LoadChain []] = Some \<lparr>chain = []\<rparr> \<and>
   getLatestBlock \<lparr>chain = []\<rparr> = None"
proof -
  have "isChainValid demo_sha \<lparr>chain = []\<rparr>"
    by (simp add: isChainValid_iff)
  then show ?thesis
    by (simp add: loadChain_eq new_Blockchain_def getLatestBlock_eq)
qed

text \<open>
  An \<open>addBlock\<close> keeps the index of every block equal to its position and gives the
  block that it appends a hash with the difficulty prefix.
\<close>

lemma perform_AddBlock_invariant:
  assumes "chain this \<noteq> []"
    and "\<forall>i<length (chain this). index (chain this ! i) = int i \<and>
           (1 \<le> i \<longrightarrow> startsWith (hash (chain this ! i)) DIFFICULTY_PREFIX)"
    and "perform sha this (AddBlock now d) = Some this'"
  shows "chain this' \<noteq> [] \<and>
         (\<forall>i<length (chain this'). index (chain this' ! i) = int i \<and>
           (1 \<le> i \<longrightarrow> startsWith (hash (chain this' ! i)) DIFFICULTY_PREFIX))"
proof (cases "addBlock sha now this d")
  case None
  with assms(3) show ?thesis by simp
next
  case (Some r)
  show ?thesis
  proof (cases r)
    case (Inl e)
    with assms Some show ?thesis by simp
  next
    case (Inr p)
    obtain b t where p: "p = (b, t)" by (cases p)
    from Some Inr p have eq: "addBlock sha now this d = Some (Inr (b, t))" by simp
    then have t: "t = this\<lparr>chain := chain this @ [b]\<rparr>"
      and b: "b = \<lparr>index = index (last (chain this)) + 1, timestamp = now, data = d,
          previousHash = hash (last (chain this)), hash = hash b, nonce = nonce b\<rparr>"
      and mined: "mineBlock sha (index (last (chain this)) + 1) now d (hash (last (chain this)))
          = Some (hash b, nonce b)"
      unfolding addBlock_Inr_iff by blast+
    from mined have pre: "startsWith (hash b) DIFFICULTY_PREFIX"
      unfolding mineBlock_eq_Some_iff by blast
    have "index b = index \<lparr>index = index (last (chain this)) + 1, timestamp = now, data = d,
          previousHash = hash (last (chain this)), hash = hash b, nonce = nonce b\<rparr>"
      using b by (rule arg_cong)
    then have "index b = index (last (chain this)) + 1" by simp
    moreover from assms(1,2) have "index (last (chain this)) = int (length (chain this) - 1)"
      by (simp add: last_conv_nth)
    ultimately have ib: "index b = int (length (chain this))"
      using assms(1) by (cases "chain this") simp_all
    from assms(3) Some Inr p have "this' = t" by simp
    with t have c: "chain this' = chain this @ [b]" by simp
    have "index ((chain this @ [b]) ! i) = int i \<and>
           (1 \<le> i \<longrightarrow> startsWith (hash ((chain this @ [b]) ! i)) DIFFICULTY_PREFIX)"
      if "i < length (chain this @ [b])" for i
    proof (cases "i < length (chain this)")
      case True
      with assms(2) show ?thesis by (simp add: nth_append)
    next
      case False
      with that have "i = length (chain this)" by simp
      with ib pre show ?thesis by simp
    qed
    with c show ?thesis by simp
  qed
qed

lemma performAll_AddBlock_invariant:
  assumes "\<forall>x\<in>set xs. is_AddBlock x"
    and "chain this \<noteq> []"
    and "\<forall>i<length (chain this). index (chain this ! i) = int i \<and>
           (1 \<le> i \<longrightarrow> startsWith (hash (chain this ! i)) DIFFICULTY_PREFIX)"
    and "performAll sha this xs = Some this'"
  shows "\<forall>i<length (chain this'). index (chain this' ! i) = int i \<and>
           (1 \<le> i \<longrightarrow> startsWith (hash (chain this' ! i)) DIFFICULTY_PREFIX)"
  using assms
proof (induction xs arbitrary: this)
  case Nil
  then show ?case by simp
next
  case (Cons x xs)
  from Cons.prems(4) obtain t where t: "perform sha this x = Some t"
    and rest: "performAll sha t xs = Some this'"
    by (auto split: option.splits)
  from Cons.prems(1) have "is_AddBlock x" by simp
  then obtain now d where x: "x = AddBlock now d" by (cases x) simp_all
  from perform_AddBlock_invariant [OF Cons.prems(2,3) t [unfolded x]]
  have ne: "chain t \<noteq> []"
    and inv: "\<forall>i<length (chain t). index (chain t ! i) = int i \<and>
           (1 \<le> i \<longrightarrow> startsWith (hash (chain t ! i)) DIFFICULTY_PREFIX)"
    by blast+
  from Cons.prems(1) have "\<forall>x\<in>set xs. is_AddBlock x" by simp
  from Cons.IH [OF this ne inv rest] show ?case .
qed

text \<open>
  C6. In every chain obtained by constructing a ledger and performing any sequence of
  \<open>addBlock\<close> calls, the index of every block is its position, and every block but the
  genesis block (position and index at least 1) has a hash that starts with the
  difficulty prefix of two \<open>0\<close> characters.
\<close>

theorem proof_of_work_invariant:
  assumes "\<forall>x\<in>set xs. is_AddBlock x"
    and "performAll sha (new_Blockchain sha) xs = Some this'"
  shows "DIFFICULTY_PREFIX = ''00'' \<and>
         (\<forall>i<length (chain this'). index (chain this' ! i) = int i \<and>
           (1 \<le> i \<longrightarrow> startsWith (hash (chain this' ! i)) DIFFICULTY_PREFIX)) \<and>
         (\<forall>b\<in>set (chain this'). 1 \<le> index b \<longrightarrow> startsWith (hash b) DIFFICULTY_PREFIX)"
proof -
  have ne: "chain (new_Blockchain sha) \<noteq> []"
    by (simp add: new_Blockchain_def)
  have init: "\<forall>i<length (chain (new_Blockchain sha)).
      index (chain (new_Blockchain sha) ! i) = int i \<and>
      (1 \<le> i \<longrightarrow> startsWith (hash (chain (new_Blockchain sha) ! i)) DIFFICULTY_PREFIX)"
    by (simp add: new_Blockchain_def createGenesisBlock_def)
  note inv = performAll_AddBlock_invariant [OF assms(1) ne init assms(2)]
  have "startsWith (hash b) DIFFICULTY_PREFIX" if "b \<in> set (chain this')" "1 \<le> index b" for b
  proof -
    from that(1) obtain i where i: "i < length (chain this')" "chain this' ! i = b"
      by (auto simp: in_set_conv_nth)
    with inv have "index b = int i" by auto
    with that(2) have "1 \<le> i" by simp
    with inv i show ?thesis by auto
  qed
  moreover have "DIFFICULTY_PREFIX = ''00''"
    by (simp add: DIFFICULTY_PREFIX_def MINING_DIFFICULTY_def numeral_2_eq_2)
  ultimately show ?thesis using inv by blast
qed

theorem proof_of_work_invariant_witness:
  "performAll demo_sha (new_Blockchain demo_sha) [AddBlock demo_now demo_payload]
     = Some demo_ledger \<and>
   length (chain demo_ledger) = 2 \<and>
   index (chain demo_ledger ! 1) = 1 \<and>
   startsWith (hash (chain demo_ledger ! 1)) DIFFICULTY_PREFIX"
proof -
  have run: "performAll demo_sha (new_Blockchain demo_sha) [AddBlock demo_now demo_payload]
     = Some demo_ledger"
    by (simp add: demo_addBlock)
  have all: "\<forall>x\<in>set [AddBlock demo_now demo_payload]. is_AddBlock x"
    by simp
  have len: "length (chain demo_ledger) = 2"
    by (simp add: demo_ledger_def)
  from proof_of_work_invariant [OF all run]
  have "\<forall>i<length (chain demo_ledger). index (chain demo_ledger ! i) = int i \<and>
           (1 \<le> i \<longrightarrow> startsWith (hash (chain demo_ledger ! i)) DIFFICULTY_PREFIX)"
    by blast
  then have "index (chain demo_ledger ! 1) = int 1 \<and>
           (1 \<le> (1::nat) \<longrightarrow> startsWith (hash (chain demo_ledger ! 1)) DIFFICULTY_PREFIX)"
    using len by (auto dest!: spec [of _ 1])
  with run len show ?thesis by simp
qed

subsection \<open>Tamper detection\<close>




end
